theory Spec2Isabelle
  imports Main "HOL-Library.AList"
begin

section \<open>Sanitizer: \<open>sanitizeFilename\<close> (src/utils/filename.ts)\<close>

text \<open>
  A JavaScript string is a sequence of UTF-16 code units; \<open>substring\<close> and the regular
  expressions of \<open>sanitizeFilename\<close> (which carry no \<open>u\<close> flag) work on code units.
  A code unit is modelled as a natural number, a string as a list of them, so that the
  non-ASCII white space of \<open>\s\<close> is covered as well.
\<close>

type_synonym code_unit = nat
type_synonym js_string = "code_unit list"

definition js :: "string \<Rightarrow> js_string" where
  "js s = map of_char s"

text \<open>
  \<open>String.prototype.toLowerCase\<close>. The code units \<open>A\<close>..\<open>Z\<close> become \<open>a\<close>..\<open>z\<close>. Outside
  ASCII the Unicode case mapping produces an ASCII letter in two cases only, which are
  written out: U+212A (Kelvin sign) becomes \<open>k\<close>, and U+0130 becomes \<open>i\<close> followed by
  U+0307. Every other code unit is kept as it is: where Unicode maps it to another
  character, both the character and its image lie outside \<open>[a-z0-9\s.-]\<close> and are deleted by
  the first \<open>replace\<close> of \<open>sanitizeFilename\<close>, the only caller.
\<close>

definition toLowerCase_unit :: "code_unit \<Rightarrow> js_string" where
  "toLowerCase_unit c =
     (if 65 \<le> c \<and> c \<le> 90 then [c + 32]
      else if c = 8490 then [107]
      else if c = 304 then [105, 775]
      else [c])"

definition toLowerCase :: "js_string \<Rightarrow> js_string" where
  "toLowerCase s = concat (map toLowerCase_unit s)"

text \<open>The class \<open>\s\<close> of ECMAScript: WhiteSpace and LineTerminator code points.\<close>

definition is_space :: "code_unit \<Rightarrow> bool" where
  "is_space c \<longleftrightarrow>
     (9 \<le> c \<and> c \<le> 13) \<or> c = 32 \<or> c = 160 \<or> c = 5760 \<or> (8192 \<le> c \<and> c \<le> 8202) \<or>
     c = 8232 \<or> c = 8233 \<or> c = 8239 \<or> c = 8287 \<or> c = 12288 \<or> c = 65279"

text \<open>
  The complement of the class \<open>[^a-z0-9\s-.]\<close>: without the \<open>u\<close> flag, \<open>\s-.\<close> inside a
  class is the union of \<open>\s\<close>, the hyphen (45) and the full stop (46).
\<close>

definition is_kept :: "code_unit \<Rightarrow> bool" where
  "is_kept c \<longleftrightarrow>
     (97 \<le> c \<and> c \<le> 122) \<or> (48 \<le> c \<and> c \<le> 57) \<or> is_space c \<or> c = 45 \<or> c = 46"

text \<open>\<open>cleaned.replace(/\s+/g, separator)\<close>: every maximal run of white space becomes one
  separator.\<close>

function replace_spaces :: "js_string \<Rightarrow> js_string \<Rightarrow> js_string" where
  "replace_spaces separator [] = []"
| "replace_spaces separator (c # cs) =
     (if is_space c then separator @ replace_spaces separator (dropWhile is_space cs)
      else c # replace_spaces separator cs)"
  by pat_completeness auto
termination
  by (relation "measure (\<lambda>(separator, s). length s)")
     (auto simp: length_dropWhile_le less_Suc_eq_le)

definition sanitizeFilename :: "js_string \<Rightarrow> bool \<Rightarrow> js_string" where
  "sanitizeFilename name useHyphens =
     (let cleaned = filter is_kept (toLowerCase name);
          separator = (if useHyphens then js ''-'' else js ''_'')
      in take 100 (replace_spaces separator cleaned))"

section \<open>Rendering service client: \<open>EmailOnAcidService\<close>\<close>

subsection \<open>Data\<close>

text \<open>
  The status response is a JavaScript object from client identifier to an object
  \<open>{status, screenshots?: {default}}\<close>. An object is an association list in insertion
  order: \<open>map_of\<close> reads a property, \<open>map fst\<close> is \<open>Object.keys\<close>, \<open>AList.update\<close> is
  assignment (in place for an existing key, appended for a new one). Client identifiers
  are taken not to be names of \<open>Object.prototype\<close> members, and every entry of a snapshot
  is an object, hence truthy.
\<close>

type_synonym client_id = string

text \<open>The value of \<open>client.screenshots?.default\<close>: absent, a string, or anything else.\<close>

datatype js_value = Undefined | Str string | NonString

record client_result =
  status :: string
  screenshot :: js_value

type_synonym results = "(client_id \<times> client_result) list"

type_synonym captured = "(client_id \<times> string) list"

text \<open>Truthiness of a property of type \<open>string | undefined\<close>.\<close>

fun truthy :: "string option \<Rightarrow> bool" where
  "truthy None = False"
| "truthy (Some s) = (s \<noteq> [])"

text \<open>What \<open>axios.get\<close> does on one call: a response with its (possibly falsy) body, or a
  thrown error, which is an axios error with an optional HTTP status or some other error.\<close>

datatype thrown = AxiosError "nat option" | OtherError

datatype fetch_response = Response "results option" | Throws thrown

datatype poll_error = MissingTestId | AuthenticationFailed

subsection \<open>\<open>fetchResults\<close>\<close>

fun fetchResults :: "fetch_response \<Rightarrow> poll_error + results option" where
  "fetchResults (Response data) = Inr (Some (case data of Some r \<Rightarrow> r | None \<Rightarrow> []))"
| "fetchResults (Throws (AxiosError st)) =
     (if st = Some 401 then Inl AuthenticationFailed else Inr None)"
| "fetchResults (Throws OtherError) = Inr None"

subsection \<open>\<open>processClientResults\<close> and its handlers\<close>

definition handleCompleteClient :: "client_id \<Rightarrow> client_result \<Rightarrow> captured \<Rightarrow> captured" where
  "handleCompleteClient clientId client capturedUrls =
     (case screenshot client of
        Str screenshotUrl \<Rightarrow>
          if screenshotUrl \<noteq> [] then
            (if \<not> truthy (map_of capturedUrls clientId)
             then AList.update clientId screenshotUrl capturedUrls
             else capturedUrls)
          else capturedUrls
      | _ \<Rightarrow> capturedUrls)"

definition handleFailedClient :: "client_id \<Rightarrow> string \<Rightarrow> captured \<Rightarrow> captured" where
  "handleFailedClient clientId st capturedUrls =
     (if \<not> truthy (map_of capturedUrls clientId)
      then AList.update clientId [] capturedUrls
      else capturedUrls)"

definition clientsToCheck :: "client_id list \<Rightarrow> results \<Rightarrow> client_id list" where
  "clientsToCheck requestedClients res =
     (if length requestedClients > 0 then requestedClients else map fst res)"

text \<open>The body of the \<open>for\<close> loop of \<open>processClientResults\<close> for a client that has an
  entry.\<close>

definition handleClient :: "client_id \<Rightarrow> client_result \<Rightarrow> captured \<Rightarrow> captured" where
  "handleClient clientId client capturedUrls =
     (if status client = ''Complete'' then handleCompleteClient clientId client capturedUrls
      else if status client = ''Failed'' \<or> status client = ''Bounced''
           then handleFailedClient clientId (status client) capturedUrls
      else capturedUrls)"

fun processLoop ::
  "results \<Rightarrow> client_id list \<Rightarrow> client_id list \<Rightarrow> captured \<Rightarrow> client_id list \<times> captured" where
  "processLoop res [] clientsFound capturedUrls = (clientsFound, capturedUrls)"
| "processLoop res (clientId # rest) clientsFound capturedUrls =
     (case map_of res clientId of
        None \<Rightarrow> processLoop res rest clientsFound capturedUrls
      | Some client \<Rightarrow>
          processLoop res rest (clientsFound @ [clientId])
            (handleClient clientId client capturedUrls))"

definition processClientResults ::
  "results \<Rightarrow> client_id list \<Rightarrow> captured \<Rightarrow> client_id list \<times> captured" where
  "processClientResults res requestedClients capturedUrls =
     processLoop res (clientsToCheck requestedClients res) [] capturedUrls"

subsection \<open>\<open>checkIfShouldExit\<close>\<close>

definition appearedClients :: "client_id list \<Rightarrow> results \<Rightarrow> client_id list" where
  "appearedClients requestedClients res =
     filter (\<lambda>cid. map_of res cid \<noteq> None) (clientsToCheck requestedClients res)"

definition is_terminal :: "string \<Rightarrow> bool" where
  "is_terminal st \<longleftrightarrow> st = ''Complete'' \<or> st = ''Failed'' \<or> st = ''Bounced''"

definition status_of :: "results \<Rightarrow> client_id \<Rightarrow> string option" where
  "status_of res cid = map_option status (map_of res cid)"

definition finishedClients :: "client_id list \<Rightarrow> results \<Rightarrow> client_id list" where
  "finishedClients requestedClients res =
     filter (\<lambda>cid. case status_of res cid of Some st \<Rightarrow> is_terminal st | None \<Rightarrow> False)
       (appearedClients requestedClients res)"

definition allFinished :: "client_id list \<Rightarrow> results \<Rightarrow> bool" where
  "allFinished requestedClients res \<longleftrightarrow>
     length (finishedClients requestedClients res) = length (appearedClients requestedClients res)"

definition allRequestedAppeared :: "client_id list \<Rightarrow> results \<Rightarrow> bool" where
  "allRequestedAppeared requestedClients res \<longleftrightarrow>
     length (appearedClients requestedClients res) = length (clientsToCheck requestedClients res)"

definition completeClients :: "client_id list \<Rightarrow> results \<Rightarrow> client_id list" where
  "completeClients requestedClients res =
     filter (\<lambda>cid. status_of res cid = Some ''Complete'') (appearedClients requestedClients res)"

definition completeWithUrls :: "client_id list \<Rightarrow> results \<Rightarrow> captured \<Rightarrow> client_id list" where
  "completeWithUrls requestedClients res capturedUrls =
     filter (\<lambda>cid. truthy (map_of capturedUrls cid)) (completeClients requestedClients res)"

definition allCompleteHaveUrls :: "client_id list \<Rightarrow> results \<Rightarrow> captured \<Rightarrow> bool" where
  "allCompleteHaveUrls requestedClients res capturedUrls \<longleftrightarrow>
     length (completeWithUrls requestedClients res capturedUrls) =
     length (completeClients requestedClients res)"

definition checkIfShouldExit ::
  "client_id list \<Rightarrow> results \<Rightarrow> captured \<Rightarrow> client_id list \<Rightarrow> int \<Rightarrow> bool" where
  "checkIfShouldExit requestedClients res capturedUrls clientsInResults attempt =
     (if length (map fst res) = 0 then False
      else if \<not> allFinished requestedClients res then False
      else if \<not> allRequestedAppeared requestedClients res \<and> \<not> attempt \<ge> 10 then False
      else if allCompleteHaveUrls requestedClients res capturedUrls \<or> attempt \<ge> 15 then True
      else False)"

subsection \<open>\<open>buildFinalResults\<close> and \<open>getPreviewUrls\<close>\<close>

definition buildFinalResults :: "client_id list \<Rightarrow> captured \<Rightarrow> captured" where
  "buildFinalResults requestedClients capturedUrls =
     filter (\<lambda>(cid, url). url \<noteq> []) capturedUrls"

text \<open>
  The \<open>for\<close> loop of \<open>getPreviewUrls\<close>. The service is the environment: \<open>env attempt\<close> is
  what \<open>axios.get\<close> does on the call of that attempt. The loop state is the captured-URL
  object together with the number of status fetches performed so far. \<open>wait\<close> and
  \<open>showProgress\<close> only sleep and log. \<open>maxAttempts\<close> is the number read from the
  environment variable; a value that is not positive gives no iteration.
\<close>

function pollLoop ::
  "(int \<Rightarrow> fetch_response) \<Rightarrow> client_id list \<Rightarrow> int \<Rightarrow> int \<Rightarrow> nat \<Rightarrow> captured
     \<Rightarrow> nat \<times> (poll_error + captured)" where
  "pollLoop env emailClients maxAttempts attempt fetches capturedUrls =
     (if attempt \<le> maxAttempts then
        (case fetchResults (env attempt) of
           Inl e \<Rightarrow> (Suc fetches, Inl e)
         | Inr None \<Rightarrow>
             pollLoop env emailClients maxAttempts (attempt + 1) (Suc fetches) capturedUrls
         | Inr (Some res) \<Rightarrow>
             (case processClientResults res emailClients capturedUrls of
                (clientsInResults, capturedUrls') \<Rightarrow>
                  if checkIfShouldExit emailClients res capturedUrls' clientsInResults attempt
                  then (Suc fetches, Inr capturedUrls')
                  else pollLoop env emailClients maxAttempts (attempt + 1) (Suc fetches)
                         capturedUrls'))
      else (fetches, Inr capturedUrls))"
  by pat_completeness auto
termination
  by (relation "measure (\<lambda>(env, emailClients, maxAttempts, attempt, fetches, capturedUrls).
        nat (maxAttempts + 1 - attempt))") auto

declare pollLoop.simps [simp del]

text \<open>\<open>getPreviewUrls\<close> returns the number of status fetches it performed and either the
  error it threw or the object it returned. \<open>test_id\<close> is \<open>None\<close> when the property is
  missing.\<close>

definition getPreviewUrls ::
  "(int \<Rightarrow> fetch_response) \<Rightarrow> string option \<Rightarrow> client_id list \<Rightarrow> int
     \<Rightarrow> nat \<times> (poll_error + captured)" where
  "getPreviewUrls env test_id emailClients maxAttempts =
     (if \<not> truthy test_id then (0, Inl MissingTestId)
      else
        (case pollLoop env emailClients maxAttempts 1 0 [] of
           (fetches, Inl e) \<Rightarrow> (fetches, Inl e)
         | (fetches, Inr capturedUrls) \<Rightarrow>
             (fetches, Inr (buildFinalResults emailClients capturedUrls))))"

section \<open>Result materializer: \<open>globalSetup\<close>\<close>

record GeneratedPreview =
  name :: string
  url :: string
  client :: string

text \<open>The class \<open>\w\<close> and \<open>toUpperCase\<close> on one character of it.\<close>

definition is_word :: "char \<Rightarrow> bool" where
  "is_word c \<longleftrightarrow>
     (let n = (of_char c :: nat)
      in (97 \<le> n \<and> n \<le> 122) \<or> (65 \<le> n \<and> n \<le> 90) \<or> (48 \<le> n \<and> n \<le> 57) \<or> n = 95)"

definition toUpperCase_char :: "char \<Rightarrow> char" where
  "toUpperCase_char c =
     (let n = (of_char c :: nat) in if 97 \<le> n \<and> n \<le> 122 then char_of (n - 32) else c)"

text \<open>\<open>s.replace(/_/g, ' ')\<close>\<close>

definition replace_underscores :: "string \<Rightarrow> string" where
  "replace_underscores s = map (\<lambda>c. if c = CHR ''_'' then CHR '' '' else c) s"

text \<open>\<open>s.replace(/\b\w/g, char => char.toUpperCase())\<close>: a word character matches when
  the character before it is not a word character (or there is none); \<open>prev\<close> tells
  whether the previous character was a word character.\<close>

fun upper_at_boundaries :: "bool \<Rightarrow> string \<Rightarrow> string" where
  "upper_at_boundaries prev [] = []"
| "upper_at_boundaries prev (c # cs) =
     (if is_word c \<and> \<not> prev then toUpperCase_char c else c)
       # upper_at_boundaries (is_word c) cs"

definition preview_name :: "client_id \<Rightarrow> string" where
  "preview_name cl = upper_at_boundaries False (replace_underscores cl) @ '' Preview''"

definition materialize :: "captured \<Rightarrow> GeneratedPreview list" where
  "materialize previewUrlsMap =
     map (\<lambda>(cl, u). \<lparr>name = preview_name cl, url = u, client = cl\<rparr>) previewUrlsMap"

section \<open>Definitions used to state the properties\<close>

subsection \<open>The termination rule in the words of the specification\<close>

text \<open>
  A session is the list \<open>history\<close> of the snapshots fetched so far, in the order of the
  attempts, the current one last. A client has appeared when some snapshot of the session
  names it; its status is the one of the latest snapshot that names it.
\<close>

definition appeared_so_far :: "results list \<Rightarrow> client_id list" where
  "appeared_so_far history = concat (map (map fst) history)"

definition latest_status :: "results list \<Rightarrow> client_id \<Rightarrow> string option" where
  "latest_status history c =
     (case filter (\<lambda>snapshot. c \<in> fst ` set snapshot) history of
        [] \<Rightarrow> None
      | s # ss \<Rightarrow> status_of (last (s # ss)) c)"

text \<open>
  The rule of the specification (section 4.3, steps 3 and 4): \<open>allFinished\<close> and
  \<open>allCompleteHaveUrls\<close> range over every client that has appeared in any snapshot so far,
  \<open>allRequestedAppeared\<close> asks every requested client to have appeared in at least one
  snapshot, and the rule is evaluated in order.
\<close>

definition termination_rule_spec ::
  "client_id list \<Rightarrow> results list \<Rightarrow> captured \<Rightarrow> int \<Rightarrow> bool" where
  "termination_rule_spec requested history outcome attempt =
     (let appeared = appeared_so_far history;
          allFinished_s = (\<forall>c \<in> set appeared.
             (case latest_status history c of
                Some st \<Rightarrow> st = ''Complete'' \<or> st = ''Failed'' \<or> st = ''Bounced''
              | None \<Rightarrow> False));
          allRequestedAppeared_s = (\<forall>c \<in> set requested. c \<in> set appeared);
          waitedLongEnough = (attempt \<ge> 10);
          allCompleteHaveUrls_s = (\<forall>c \<in> set appeared.
             latest_status history c = Some ''Complete'' \<longrightarrow>
               (\<exists>u. map_of outcome c = Some u \<and> u \<noteq> []));
          triedEnoughForScreenshots = (attempt \<ge> 15)
      in if history = [] \<or> last history = [] then False
         else if \<not> allFinished_s then False
         else if \<not> allRequestedAppeared_s \<and> \<not> waitedLongEnough then False
         else if allCompleteHaveUrls_s \<or> triedEnoughForScreenshots then True
         else False)"

text \<open>
  \<open>allFinished\<close> in the words of the specification, over the clients the poller looks at:
  every such client that has appeared in any snapshot of the session so far is in a
  terminal status.
\<close>

definition allFinished_spec :: "client_id list \<Rightarrow> results list \<Rightarrow> bool" where
  "allFinished_spec requested history \<longleftrightarrow>
     (\<forall>snapshot \<in> set history.
        \<forall>c \<in> set (if requested = [] then map fst snapshot else requested).
          c \<in> fst ` set snapshot \<longrightarrow>
            (case latest_status history c of
               Some st \<Rightarrow> st = ''Complete'' \<or> st = ''Failed'' \<or> st = ''Bounced''
             | None \<Rightarrow> False))"

subsection \<open>Outcomes and reports\<close>






text \<open>
  \<open>capturedAfter env requested k\<close> is the captured-URL object after the snapshots of the
  attempts 1 to \<open>k\<close> have been processed (a soft failure leaves it as it is);
  \<open>firesAt env requested k\<close> tells whether the exit decision stops the loop at attempt \<open>k\<close>.
\<close>

fun capturedAfter :: "(int \<Rightarrow> fetch_response) \<Rightarrow> client_id list \<Rightarrow> nat \<Rightarrow> captured" where
  "capturedAfter env requested 0 = []"
| "capturedAfter env requested (Suc k) =
     (case fetchResults (env (int (Suc k))) of
        Inr (Some res) \<Rightarrow> snd (processClientResults res requested (capturedAfter env requested k))
      | _ \<Rightarrow> capturedAfter env requested k)"

fun firesAt :: "(int \<Rightarrow> fetch_response) \<Rightarrow> client_id list \<Rightarrow> nat \<Rightarrow> bool" where
  "firesAt env requested 0 = False"
| "firesAt env requested (Suc k) =
     (case fetchResults (env (int (Suc k))) of
        Inr (Some res) \<Rightarrow>
          (case processClientResults res requested (capturedAfter env requested k) of
             (found, cap) \<Rightarrow> checkIfShouldExit requested res cap found (int (Suc k)))
      | _ \<Rightarrow> False)"

text \<open>
  \<open>write_of\<close> is the value that the handlers assign to the entry of a client, given the
  client's snapshot entry and its current captured entry (\<open>None\<close>: no assignment);
  a client is \<open>settled\<close> when handling it again would not change the captured object.
\<close>

definition write_of :: "client_result \<Rightarrow> string option \<Rightarrow> string option" where
  "write_of cl old =
     (if truthy old then None
      else if status cl = ''Complete'' then
        (case screenshot cl of Str u \<Rightarrow> if u \<noteq> [] then Some u else None | _ \<Rightarrow> None)
      else if status cl = ''Failed'' \<or> status cl = ''Bounced'' then Some []
      else None)"

definition settled :: "results \<Rightarrow> captured \<Rightarrow> client_id \<Rightarrow> bool" where
  "settled res cap c \<longleftrightarrow>
     (case map_of res c of None \<Rightarrow> True
      | Some cl \<Rightarrow> write_of cl (map_of cap c) = None \<or> write_of cl (map_of cap c) = map_of cap c)"

subsection \<open>Sanitizer output and preview names\<close>

text \<open>The characters \<open>[a-z0-9.-]\<close>.\<close>

definition is_name_char :: "code_unit \<Rightarrow> bool" where
  "is_name_char c \<longleftrightarrow> (97 \<le> c \<and> c \<le> 122) \<or> (48 \<le> c \<and> c \<le> 57) \<or> c = 46 \<or> c = 45"

text \<open>
  The preview name in the words of the specification: a word is a maximal run of ASCII
  letters and digits, and the first character of each word is put in upper case.
\<close>

definition is_alnum :: "char \<Rightarrow> bool" where
  "is_alnum c \<longleftrightarrow>
     (let n = (of_char c :: nat)
      in (97 \<le> n \<and> n \<le> 122) \<or> (65 \<le> n \<and> n \<le> 90) \<or> (48 \<le> n \<and> n \<le> 57))"

function capitalize_words :: "string \<Rightarrow> string" where
  "capitalize_words [] = []"
| "capitalize_words (c # cs) =
     (if is_alnum c
      then toUpperCase_char c # takeWhile is_alnum cs @ capitalize_words (dropWhile is_alnum cs)
      else c # capitalize_words cs)"
  by pat_completeness auto
termination
  by (relation "measure length") (auto simp: length_dropWhile_le less_Suc_eq_le)

definition preview_name_spec :: "client_id \<Rightarrow> string" where
  "preview_name_spec cl =
     capitalize_words (map (\<lambda>c. if c = CHR ''_'' then CHR '' '' else c) cl) @ '' Preview''"

section \<open>The exit decision\<close>

lemma length_filter_eq_iff: "length (filter P xs) = length xs \<longleftrightarrow> (\<forall>x \<in> set xs. P x)"
proof
  assume eq: "length (filter P xs) = length xs"
  show "\<forall>x \<in> set xs. P x"
  proof (rule ccontr)
    assume "\<not> (\<forall>x \<in> set xs. P x)"
    then obtain x where "x \<in> set xs" "\<not> P x" by blast
    then have "length (filter P xs) < length xs" by (rule length_filter_less)
    with eq show False by simp
  qed
next
  assume "\<forall>x \<in> set xs. P x"
  then show "length (filter P xs) = length xs" by simp
qed

lemma truthy_iff: "truthy v \<longleftrightarrow> (\<exists>u. v = Some u \<and> u \<noteq> [])"
  by (cases v) auto

lemma appeared_iff: "map_of res c \<noteq> None \<longleftrightarrow> c \<in> fst ` set res"
  by (simp add: map_of_eq_None_iff)

lemma appeared_iff2: "(\<exists>y. map_of res c = Some y) \<longleftrightarrow> c \<in> fst ` set res"
  using appeared_iff [of res c] by auto

lemma clientsToCheck_alt:
  "clientsToCheck requested res = (if requested = [] then map fst res else requested)"
  by (simp add: clientsToCheck_def)

lemma allFinished_iff:
  "allFinished requested res \<longleftrightarrow>
     (\<forall>c \<in> set (clientsToCheck requested res). \<forall>cl. map_of res c = Some cl \<longrightarrow> is_terminal (status cl))"
  unfolding allFinished_def finishedClients_def length_filter_eq_iff appearedClients_def
  by (auto simp: status_of_def)

lemma allRequestedAppeared_iff:
  "allRequestedAppeared requested res \<longleftrightarrow>
     (\<forall>c \<in> set (clientsToCheck requested res). c \<in> fst ` set res)"
  unfolding allRequestedAppeared_def appearedClients_def length_filter_eq_iff
  by (simp add: appeared_iff2)

lemma allCompleteHaveUrls_iff:
  "allCompleteHaveUrls requested res cap \<longleftrightarrow>
     (\<forall>c \<in> set (clientsToCheck requested res). \<forall>cl. map_of res c = Some cl \<and> status cl = ''Complete'' \<longrightarrow>
         truthy (map_of cap c))"
  unfolding allCompleteHaveUrls_def completeWithUrls_def length_filter_eq_iff completeClients_def
    appearedClients_def
  by (auto simp: status_of_def)

lemma latest_status_one:
  "latest_status [res] c = (if c \<in> fst ` set res then status_of res c else None)"
  by (simp add: latest_status_def)

lemma status_of_present:
  "c \<in> fst ` set res \<Longrightarrow> \<exists>cl. map_of res c = Some cl \<and> status_of res c = Some (status cl)"
  using appeared_iff2 [of res c] by (auto simp: status_of_def)

text \<open>
  C1, as stated, fails: \<open>checkIfShouldExit\<close> sees the current snapshot only and looks only
  at the clients to check. In the first session \<open>gmail\<close> appeared as \<open>Processing\<close> in the
  first snapshot and is missing from the second; at attempt 10 the code stops, while a
  client that has appeared is not in a terminal status. In the second one the snapshot
  names only the unrequested client \<open>yahoo\<close>, still \<open>Processing\<close>, and the code stops at
  attempt 10 as well.
\<close>

theorem checkIfShouldExit_not_spec_rule:
  "checkIfShouldExit [''gmail'', ''outlook'']
     [(''outlook'', \<lparr>status = ''Complete'', screenshot = Str ''https://x/2.png''\<rparr>)]
     [(''outlook'', ''https://x/2.png'')] [''outlook''] 10 \<and>
   \<not> termination_rule_spec [''gmail'', ''outlook'']
     [[(''gmail'', \<lparr>status = ''Processing'', screenshot = Undefined\<rparr>),
       (''outlook'', \<lparr>status = ''Complete'', screenshot = Str ''https://x/2.png''\<rparr>)],
      [(''outlook'', \<lparr>status = ''Complete'', screenshot = Str ''https://x/2.png''\<rparr>)]]
     [(''outlook'', ''https://x/2.png'')] 10 \<and>
   checkIfShouldExit [''gmail'']
     [(''yahoo'', \<lparr>status = ''Processing'', screenshot = Undefined\<rparr>)] [] [] 10 \<and>
   \<not> termination_rule_spec [''gmail'']
     [[(''yahoo'', \<lparr>status = ''Processing'', screenshot = Undefined\<rparr>)]] [] 10"
  by (simp add: checkIfShouldExit_def allFinished_def allRequestedAppeared_def
      allCompleteHaveUrls_def finishedClients_def appearedClients_def completeClients_def
      completeWithUrls_def clientsToCheck_def status_of_def is_terminal_def
      termination_rule_spec_def appeared_so_far_def latest_status_def)

text \<open>
  C1, amended. On every poll attempt \<open>checkIfShouldExit\<close> decides by the ordered rule
  evaluated on the current snapshot and on the clients to check (the requested clients, or
  the clients named in the snapshot when none is requested): continue on an empty
  snapshot; continue when some client to check that is in the snapshot is not in a
  terminal status; continue when some client to check is not in the snapshot and the
  attempt is below 10; stop when every client to check that the snapshot reports
  \<open>Complete\<close> has a captured non-empty URL or the attempt is at least 15; continue
  otherwise. This is the rule of the specification for a session that consists of the
  current snapshot alone and names no unrequested client.
\<close>

theorem checkIfShouldExit_current_snapshot_rule:
  "checkIfShouldExit requested res capturedUrls found attempt =
     (let clients = (if requested = [] then map fst res else requested);
          present = (\<lambda>c. c \<in> fst ` set res);
          allFinished_c = (\<forall>c \<in> set clients. present c \<longrightarrow>
             (\<exists>cl. map_of res c = Some cl \<and>
                (status cl = ''Complete'' \<or> status cl = ''Failed'' \<or> status cl = ''Bounced'')));
          allRequestedAppeared_c = (\<forall>c \<in> set clients. present c);
          allCompleteHaveUrls_c = (\<forall>c \<in> set clients. present c \<longrightarrow>
             (\<forall>cl. map_of res c = Some cl \<and> status cl = ''Complete'' \<longrightarrow>
                (\<exists>u. map_of capturedUrls c = Some u \<and> u \<noteq> [])))
      in if res = [] then False
         else if \<not> allFinished_c then False
         else if \<not> allRequestedAppeared_c \<and> \<not> attempt \<ge> 10 then False
         else if allCompleteHaveUrls_c \<or> attempt \<ge> 15 then True
         else False) \<and>
   (requested = [] \<or> fst ` set res \<subseteq> set requested \<longrightarrow>
      checkIfShouldExit requested res capturedUrls found attempt =
        termination_rule_spec requested [res] capturedUrls attempt)"
proof
  let ?cs = "if requested = [] then map fst res else requested"
  have a: "allFinished requested res \<longleftrightarrow>
      (\<forall>c \<in> set ?cs. c \<in> fst ` set res \<longrightarrow>
         (\<exists>cl. map_of res c = Some cl \<and>
            (status cl = ''Complete'' \<or> status cl = ''Failed'' \<or> status cl = ''Bounced'')))"
    unfolding allFinished_iff clientsToCheck_alt is_terminal_def
    by (metis appeared_iff not_Some_eq option.inject)
  have b: "allRequestedAppeared requested res \<longleftrightarrow> (\<forall>c \<in> set ?cs. c \<in> fst ` set res)"
    unfolding allRequestedAppeared_iff clientsToCheck_alt ..
  have c: "allCompleteHaveUrls requested res capturedUrls \<longleftrightarrow>
      (\<forall>c \<in> set ?cs. c \<in> fst ` set res \<longrightarrow>
         (\<forall>cl. map_of res c = Some cl \<and> status cl = ''Complete'' \<longrightarrow>
            (\<exists>u. map_of capturedUrls c = Some u \<and> u \<noteq> [])))"
    unfolding allCompleteHaveUrls_iff clientsToCheck_alt truthy_iff
    by (metis appeared_iff option.distinct(1))
  show first: "checkIfShouldExit requested res capturedUrls found attempt =
     (let clients = (if requested = [] then map fst res else requested);
          present = (\<lambda>c. c \<in> fst ` set res);
          allFinished_c = (\<forall>c \<in> set clients. present c \<longrightarrow>
             (\<exists>cl. map_of res c = Some cl \<and>
                (status cl = ''Complete'' \<or> status cl = ''Failed'' \<or> status cl = ''Bounced'')));
          allRequestedAppeared_c = (\<forall>c \<in> set clients. present c);
          allCompleteHaveUrls_c = (\<forall>c \<in> set clients. present c \<longrightarrow>
             (\<forall>cl. map_of res c = Some cl \<and> status cl = ''Complete'' \<longrightarrow>
                (\<exists>u. map_of capturedUrls c = Some u \<and> u \<noteq> [])))
      in if res = [] then False
         else if \<not> allFinished_c then False
         else if \<not> allRequestedAppeared_c \<and> \<not> attempt \<ge> 10 then False
         else if allCompleteHaveUrls_c \<or> attempt \<ge> 15 then True
         else False)"
    unfolding checkIfShouldExit_def Let_def a b c by simp
  show "requested = [] \<or> fst ` set res \<subseteq> set requested \<longrightarrow>
      checkIfShouldExit requested res capturedUrls found attempt =
        termination_rule_spec requested [res] capturedUrls attempt"
  proof
    assume h: "requested = [] \<or> fst ` set res \<subseteq> set requested"
    have fin: "allFinished requested res \<longleftrightarrow>
        (\<forall>c \<in> fst ` set res.
           (case latest_status [res] c of
              Some st \<Rightarrow> st = ''Complete'' \<or> st = ''Failed'' \<or> st = ''Bounced''
            | None \<Rightarrow> False))"
    proof -
      have "(\<forall>c \<in> set ?cs. c \<in> fst ` set res \<longrightarrow>
         (\<exists>cl. map_of res c = Some cl \<and>
            (status cl = ''Complete'' \<or> status cl = ''Failed'' \<or> status cl = ''Bounced''))) \<longleftrightarrow>
        (\<forall>c \<in> fst ` set res.
         (\<exists>cl. map_of res c = Some cl \<and>
            (status cl = ''Complete'' \<or> status cl = ''Failed'' \<or> status cl = ''Bounced'')))"
        using h by (cases "requested = []") auto
      moreover have "(\<exists>cl. map_of res c = Some cl \<and>
            (status cl = ''Complete'' \<or> status cl = ''Failed'' \<or> status cl = ''Bounced'')) \<longleftrightarrow>
          (case latest_status [res] c of
              Some st \<Rightarrow> st = ''Complete'' \<or> st = ''Failed'' \<or> st = ''Bounced''
            | None \<Rightarrow> False)" if "c \<in> fst ` set res" for c
        using status_of_present [OF that] that by (auto simp: latest_status_one)
      ultimately show ?thesis unfolding a by simp
    qed
    have app: "allRequestedAppeared requested res \<longleftrightarrow> (\<forall>c \<in> set requested. c \<in> fst ` set res)"
      unfolding b by (cases "requested = []") auto
    have urls: "allCompleteHaveUrls requested res capturedUrls \<longleftrightarrow>
        (\<forall>c \<in> fst ` set res. latest_status [res] c = Some ''Complete'' \<longrightarrow>
           (\<exists>u. map_of capturedUrls c = Some u \<and> u \<noteq> []))"
    proof -
      have "(\<forall>c \<in> set ?cs. c \<in> fst ` set res \<longrightarrow>
         (\<forall>cl. map_of res c = Some cl \<and> status cl = ''Complete'' \<longrightarrow>
            (\<exists>u. map_of capturedUrls c = Some u \<and> u \<noteq> []))) \<longleftrightarrow>
        (\<forall>c \<in> fst ` set res.
         (\<forall>cl. map_of res c = Some cl \<and> status cl = ''Complete'' \<longrightarrow>
            (\<exists>u. map_of capturedUrls c = Some u \<and> u \<noteq> [])))"
        using h by (cases "requested = []") auto
      moreover have "(\<forall>cl. map_of res c = Some cl \<and> status cl = ''Complete'' \<longrightarrow>
            (\<exists>u. map_of capturedUrls c = Some u \<and> u \<noteq> [])) \<longleftrightarrow>
          (latest_status [res] c = Some ''Complete'' \<longrightarrow>
            (\<exists>u. map_of capturedUrls c = Some u \<and> u \<noteq> []))" if "c \<in> fst ` set res" for c
        using status_of_present [OF that] that by (auto simp: latest_status_one)
      ultimately show ?thesis unfolding c by simp
    qed
    have set_app: "set (appeared_so_far [res]) = fst ` set res"
      by (simp add: appeared_so_far_def)
    show "checkIfShouldExit requested res capturedUrls found attempt =
        termination_rule_spec requested [res] capturedUrls attempt"
      unfolding checkIfShouldExit_def termination_rule_spec_def Let_def set_app fin app urls
      by simp
  qed
qed

theorem checkIfShouldExit_current_snapshot_rule_witness:
  "checkIfShouldExit [''gmail'']
     [(''gmail'', \<lparr>status = ''Complete'', screenshot = Str ''https://x/1.png''\<rparr>)]
     [(''gmail'', ''https://x/1.png'')] [''gmail''] 3 \<and>
   termination_rule_spec [''gmail'']
     [[(''gmail'', \<lparr>status = ''Complete'', screenshot = Str ''https://x/1.png''\<rparr>)]]
     [(''gmail'', ''https://x/1.png'')] 3 \<and>
   \<not> checkIfShouldExit [''gmail'', ''outlook'']
     [(''gmail'', \<lparr>status = ''Complete'', screenshot = Str ''https://x/1.png''\<rparr>)]
     [(''gmail'', ''https://x/1.png'')] [''gmail''] 9"
proof -
  let ?res = "[(''gmail'', \<lparr>status = ''Complete'', screenshot = Str ''https://x/1.png''\<rparr>)]"
  let ?cap = "[(''gmail'', ''https://x/1.png'')]"
  have sub: "[''gmail''] = [] \<or> fst ` set ?res \<subseteq> set [''gmail'']" by simp
  have one: "checkIfShouldExit [''gmail''] ?res ?cap [''gmail''] 3"
    using checkIfShouldExit_current_snapshot_rule [of "[''gmail'']" ?res ?cap "[''gmail'']" 3]
    by simp
  have two: "termination_rule_spec [''gmail''] [?res] ?cap 3"
    using checkIfShouldExit_current_snapshot_rule [of "[''gmail'']" ?res ?cap "[''gmail'']" 3]
      sub one by blast
  have three: "\<not> checkIfShouldExit [''gmail'', ''outlook''] ?res ?cap [''gmail''] 9"
    using checkIfShouldExit_current_snapshot_rule
      [of "[''gmail'', ''outlook'']" ?res ?cap "[''gmail'']" 9]
    by simp
  show ?thesis using one two three by blast
qed

section \<open>What \<open>allFinished\<close> looks at\<close>

text \<open>
  C6, as the specification states it, fails: \<open>allFinished\<close> is computed from the current
  snapshot alone. Here \<open>gmail\<close> appeared in the first snapshot with the status
  \<open>Processing\<close> and is missing from the second one; the code finds all clients finished on
  the second snapshot, while a client that has appeared in the session is not in a terminal
  status.
\<close>

theorem allFinished_ignores_earlier_snapshots:
  "allFinished [''gmail'', ''outlook'']
     [(''outlook'', \<lparr>status = ''Complete'', screenshot = Str ''https://x/2.png''\<rparr>)] \<and>
   \<not> allFinished_spec [''gmail'', ''outlook'']
     [[(''gmail'', \<lparr>status = ''Processing'', screenshot = Undefined\<rparr>),
       (''outlook'', \<lparr>status = ''Complete'', screenshot = Str ''https://x/2.png''\<rparr>)],
      [(''outlook'', \<lparr>status = ''Complete'', screenshot = Str ''https://x/2.png''\<rparr>)]]"
  by (simp add: allFinished_def finishedClients_def appearedClients_def clientsToCheck_def
      status_of_def is_terminal_def allFinished_spec_def latest_status_def)

text \<open>
  C6, amended. \<open>allFinished\<close> holds iff every client to check (the requested clients, or
  the clients named in the snapshot when none is requested) that appears in the current
  snapshot has the status \<open>Complete\<close>, \<open>Failed\<close> or \<open>Bounced\<close> in that snapshot. It reads
  the status field of the backend, not the captured-URL object, and it agrees with the
  specification's condition on a session that consists of the current snapshot only.
\<close>

theorem allFinished_current_snapshot:
  "(allFinished requested res \<longleftrightarrow>
      (\<forall>c \<in> set (if requested = [] then map fst res else requested).
         \<forall>cl. map_of res c = Some cl \<longrightarrow>
           status cl = ''Complete'' \<or> status cl = ''Failed'' \<or> status cl = ''Bounced'')) \<and>
   (allFinished requested res \<longleftrightarrow> allFinished_spec requested [res])"
proof
  show a: "allFinished requested res \<longleftrightarrow>
      (\<forall>c \<in> set (if requested = [] then map fst res else requested).
         \<forall>cl. map_of res c = Some cl \<longrightarrow>
           status cl = ''Complete'' \<or> status cl = ''Failed'' \<or> status cl = ''Bounced'')"
    unfolding allFinished_iff clientsToCheck_alt is_terminal_def ..
  have "allFinished_spec requested [res] \<longleftrightarrow>
      (\<forall>c \<in> set (if requested = [] then map fst res else requested).
         \<forall>cl. map_of res c = Some cl \<longrightarrow>
           status cl = ''Complete'' \<or> status cl = ''Failed'' \<or> status cl = ''Bounced'')"
  proof -
    have pt: "(c \<in> fst ` set res \<longrightarrow>
            (case latest_status [res] c of
               Some st \<Rightarrow> st = ''Complete'' \<or> st = ''Failed'' \<or> st = ''Bounced''
             | None \<Rightarrow> False)) \<longleftrightarrow>
          (\<forall>cl. map_of res c = Some cl \<longrightarrow>
             status cl = ''Complete'' \<or> status cl = ''Failed'' \<or> status cl = ''Bounced'')" for c
    proof (cases "map_of res c")
      case None
      then have "c \<notin> fst ` set res" by (simp add: map_of_eq_None_iff)
      then show ?thesis using None by simp
    next
      case (Some cl)
      then have "c \<in> fst ` set res" using appeared_iff [of res c] by simp
      then show ?thesis using Some by (simp add: latest_status_one status_of_def)
    qed
    show ?thesis by (simp only: allFinished_spec_def list.set ball_simps pt simp_thms)
  qed
  with a show "allFinished requested res \<longleftrightarrow> allFinished_spec requested [res]" by simp
qed

theorem allFinished_current_snapshot_witness:
  "allFinished [''gmail'', ''outlook'']
     [(''outlook'', \<lparr>status = ''Complete'', screenshot = Str ''https://x/2.png''\<rparr>)] \<and>
   allFinished_spec [''gmail'', ''outlook'']
     [[(''outlook'', \<lparr>status = ''Complete'', screenshot = Str ''https://x/2.png''\<rparr>)]]"
proof -
  let ?res = "[(''outlook'', \<lparr>status = ''Complete'', screenshot = Str ''https://x/2.png''\<rparr>)]"
  have "\<forall>c \<in> set (if [''gmail'', ''outlook''] = [] then map fst ?res else [''gmail'', ''outlook'']).
         \<forall>cl. map_of ?res c = Some cl \<longrightarrow>
           status cl = ''Complete'' \<or> status cl = ''Failed'' \<or> status cl = ''Bounced''"
    by simp
  then show ?thesis
    using allFinished_current_snapshot [of "[''gmail'', ''outlook'']" ?res] by blast
qed

section \<open>Processing one snapshot\<close>

text \<open>The definitions that evaluate the handlers and the exit decision on concrete inputs.\<close>

lemmas eval_defs = processClientResults_def clientsToCheck_def handleClient_def
  handleCompleteClient_def handleFailedClient_def checkIfShouldExit_def allFinished_def
  allRequestedAppeared_def allCompleteHaveUrls_def finishedClients_def appearedClients_def
  completeClients_def completeWithUrls_def status_of_def is_terminal_def

lemma handleClient_write:
  "handleClient c cl cap =
     (case write_of cl (map_of cap c) of None \<Rightarrow> cap | Some v \<Rightarrow> AList.update c v cap)"
  by (simp add: handleClient_def handleCompleteClient_def handleFailedClient_def write_of_def
        split: js_value.splits)

lemma map_of_handleClient:
  "map_of (handleClient c cl cap) d =
     (if d = c then (case write_of cl (map_of cap c) of None \<Rightarrow> map_of cap c | Some v \<Rightarrow> Some v)
      else map_of cap d)"
  by (simp add: handleClient_write update_conv' split: option.splits)

lemma write_of_idem:
  "write_of cl (case write_of cl old of None \<Rightarrow> old | Some v \<Rightarrow> Some v) = None \<or>
   write_of cl (case write_of cl old of None \<Rightarrow> old | Some v \<Rightarrow> Some v) =
     (case write_of cl old of None \<Rightarrow> old | Some v \<Rightarrow> Some v)"
  by (auto simp: write_of_def split: js_value.splits option.splits)

lemma settled_handleClient_fix:
  "map_of res c = Some cl \<Longrightarrow> settled res cap c \<Longrightarrow> handleClient c cl cap = cap"
  by (auto simp: settled_def handleClient_write update_triv split: option.splits)

lemma settled_after_handle:
  "map_of res c = Some cl \<Longrightarrow> settled res (handleClient c cl cap) c"
  using write_of_idem [of cl "map_of cap c"]
  by (simp add: settled_def map_of_handleClient)

lemma settled_cong: "map_of cap' c = map_of cap c \<Longrightarrow> settled res cap' c = settled res cap c"
  by (auto simp: settled_def split: option.splits)

lemma map_of_processLoop_other:
  "d \<notin> set cids \<Longrightarrow> map_of (snd (processLoop res cids found cap)) d = map_of cap d"
  by (induction cids arbitrary: found cap) (auto simp: map_of_handleClient split: option.splits)

lemma processLoop_settles:
  "c \<in> set cids \<Longrightarrow> settled res (snd (processLoop res cids found cap)) c"
proof (induction cids arbitrary: found cap)
  case Nil
  then show ?case by simp
next
  case (Cons x cids)
  show ?case
  proof (cases "c \<in> set cids")
    case True
    then show ?thesis using Cons.IH by (simp split: option.splits)
  next
    case False
    with Cons.prems have cx: "c = x" by simp
    show ?thesis
    proof (cases "map_of res x")
      case None
      then show ?thesis using cx by (simp add: settled_def)
    next
      case (Some cl)
      have "map_of (snd (processLoop res cids (found @ [x]) (handleClient x cl cap))) c
            = map_of (handleClient x cl cap) c"
        using False by (rule map_of_processLoop_other)
      then have "settled res (snd (processLoop res cids (found @ [x]) (handleClient x cl cap))) c
            = settled res (handleClient x cl cap) c"
        by (rule settled_cong)
      then show ?thesis using Some cx settled_after_handle [of res x cl cap] by simp
    qed
  qed
qed

lemma processLoop_fix:
  "\<forall>c \<in> set cids. settled res cap c \<Longrightarrow> snd (processLoop res cids found cap) = cap"
  by (induction cids arbitrary: found) (auto simp: settled_handleClient_fix split: option.splits)













text \<open>
  C8. Processing the same snapshot a second time, with the same requested clients, leaves
  the captured-URL object as the first processing left it, whatever the object was before.
\<close>

theorem repoll_idempotent:
  "snd (processClientResults res requested (snd (processClientResults res requested capturedUrls)))
     = snd (processClientResults res requested capturedUrls)"
proof -
  let ?cs = "clientsToCheck requested res"
  have "snd (processLoop res ?cs [] (snd (processLoop res ?cs [] capturedUrls)))
        = snd (processLoop res ?cs [] capturedUrls)"
    by (rule processLoop_fix) (simp add: processLoop_settles)
  then show ?thesis
    by (simp add: processClientResults_def)
qed

theorem repoll_idempotent_witness:
  "snd (processClientResults
          [(''gmail'', \<lparr>status = ''Complete'', screenshot = Str ''https://x/1.png''\<rparr>),
           (''outlook'', \<lparr>status = ''Failed'', screenshot = Undefined\<rparr>)]
          [''gmail'', ''outlook'']
          [(''gmail'', ''https://x/1.png''), (''outlook'', [])])
     = [(''gmail'', ''https://x/1.png''), (''outlook'', [])]"
proof -
  let ?res = "[(''gmail'', \<lparr>status = ''Complete'', screenshot = Str ''https://x/1.png''\<rparr>),
               (''outlook'', \<lparr>status = ''Failed'', screenshot = Undefined\<rparr>)]"
  have first: "snd (processClientResults ?res [''gmail'', ''outlook''] [])
      = [(''gmail'', ''https://x/1.png''), (''outlook'', [])]"
    by (simp add: eval_defs)
  show ?thesis
    using repoll_idempotent [of ?res "[''gmail'', ''outlook'']" "[]"] unfolding first .
qed

section \<open>The polling loop\<close>

lemma pollLoop_done:
  "\<not> a \<le> M \<Longrightarrow> pollLoop env cl M a f cap = (f, Inr cap)"
  by (simp add: pollLoop.simps)

lemma pollLoop_error:
  "a \<le> M \<Longrightarrow> fetchResults (env a) = Inl e \<Longrightarrow> pollLoop env cl M a f cap = (Suc f, Inl e)"
  by (simp add: pollLoop.simps)

lemma pollLoop_skip:
  "a \<le> M \<Longrightarrow> fetchResults (env a) = Inr None \<Longrightarrow>
     pollLoop env cl M a f cap = pollLoop env cl M (a + 1) (Suc f) cap"
  by (subst pollLoop.simps) simp

lemma pollLoop_exit:
  "a \<le> M \<Longrightarrow> fetchResults (env a) = Inr (Some res) \<Longrightarrow>
   processClientResults res cl cap = (found, cap1) \<Longrightarrow> checkIfShouldExit cl res cap1 found a \<Longrightarrow>
     pollLoop env cl M a f cap = (Suc f, Inr cap1)"
  by (subst pollLoop.simps) simp

lemma pollLoop_continue:
  "a \<le> M \<Longrightarrow> fetchResults (env a) = Inr (Some res) \<Longrightarrow>
   processClientResults res cl cap = (found, cap1) \<Longrightarrow> \<not> checkIfShouldExit cl res cap1 found a \<Longrightarrow>
     pollLoop env cl M a f cap = pollLoop env cl M (a + 1) (Suc f) cap1"
  by (subst pollLoop.simps) simp

lemma pollLoop_rule:
  assumes fin: "\<And>a f cap. \<not> a \<le> M \<Longrightarrow> P a f cap (f, Inr cap)"
    and err: "\<And>a f cap e. a \<le> M \<Longrightarrow> fetchResults (env a) = Inl e \<Longrightarrow> P a f cap (Suc f, Inl e)"
    and skip: "\<And>a f cap r. a \<le> M \<Longrightarrow> fetchResults (env a) = Inr None \<Longrightarrow>
                 P (a + 1) (Suc f) cap r \<Longrightarrow> P a f cap r"
    and ex: "\<And>a f cap res found cap1. a \<le> M \<Longrightarrow> fetchResults (env a) = Inr (Some res) \<Longrightarrow>
                 processClientResults res cl cap = (found, cap1) \<Longrightarrow>
                 checkIfShouldExit cl res cap1 found a \<Longrightarrow> P a f cap (Suc f, Inr cap1)"
    and cont: "\<And>a f cap res found cap1 r. a \<le> M \<Longrightarrow> fetchResults (env a) = Inr (Some res) \<Longrightarrow>
                 processClientResults res cl cap = (found, cap1) \<Longrightarrow>
                 \<not> checkIfShouldExit cl res cap1 found a \<Longrightarrow>
                 P (a + 1) (Suc f) cap1 r \<Longrightarrow> P a f cap r"
  shows "P a f cap (pollLoop env cl M a f cap)"
  using assms
proof (induction env cl M a f cap rule: pollLoop.induct)
  case (1 env cl M a f cap)
  show ?case
  proof (cases "a \<le> M")
    case False
    then show ?thesis using "1.prems"(1) by (simp add: pollLoop_done)
  next
    case True
    show ?thesis
    proof (cases "fetchResults (env a)")
      case (Inl e)
      then show ?thesis using True "1.prems"(2) by (simp add: pollLoop_error)
    next
      case (Inr r)
      show ?thesis
      proof (cases r)
        case None
        have "P (a + 1) (Suc f) cap (pollLoop env cl M (a + 1) (Suc f) cap)"
          using True Inr None "1.prems" by (intro "1.IH"(1)) auto
        then show ?thesis
          using True Inr None "1.prems"(3) by (simp add: pollLoop_skip)
      next
        case (Some res)
        obtain found cap1 where p: "processClientResults res cl cap = (found, cap1)"
          by (cases "processClientResults res cl cap")
        show ?thesis
        proof (cases "checkIfShouldExit cl res cap1 found a")
          case True
          then show ?thesis
            using \<open>a \<le> M\<close> Inr Some p "1.prems"(4) by (simp add: pollLoop_exit)
        next
          case False
          have "P (a + 1) (Suc f) cap1 (pollLoop env cl M (a + 1) (Suc f) cap1)"
            using True Inr Some p False "1.prems" by (intro "1.IH"(2)) auto
          then show ?thesis
            using True Inr Some p False "1.prems"(5) [of a res cap found cap1]
            by (simp add: pollLoop_continue)
        qed
      qed
    qed
  qed
qed

lemma pollLoop_fetches_bound: "fst (pollLoop env cl M a f cap) \<le> f + nat (M + 1 - a)"
  by (rule pollLoop_rule [where P = "\<lambda>a f cap r. fst r \<le> f + nat (M + 1 - a)"]) simp_all












lemma getPreviewUrls_fetches_bound: "fst (getPreviewUrls env test_id cl M) \<le> nat M"
  using pollLoop_fetches_bound [of env cl M 1 0 "[]"]
  by (auto simp: getPreviewUrls_def split: prod.splits sum.splits)

lemma fetchResults_Inl: "fetchResults x = Inl e \<Longrightarrow> e = AuthenticationFailed \<and> x = Throws (AxiosError (Some 401))"
  by (cases x rule: fetchResults.cases) (auto split: if_splits)

lemma processLoop_empty: "processLoop [] cids found cap = (found, cap)"
  by (induction cids) simp_all

lemma processClientResults_empty: "processClientResults [] cl cap = ([], cap)"
  by (simp add: processClientResults_def processLoop_empty)

lemma pollLoop_no_auth_failure:
  "(\<forall>j. a \<le> j \<and> j \<le> M \<longrightarrow> env j \<noteq> Throws (AxiosError (Some 401))) \<longrightarrow>
     (\<exists>cap'. snd (pollLoop env cl M a f cap) = Inr cap')"
proof (rule pollLoop_rule [where P = "\<lambda>a f cap r.
     (\<forall>j. a \<le> j \<and> j \<le> M \<longrightarrow> env j \<noteq> Throws (AxiosError (Some 401))) \<longrightarrow>
     (\<exists>cap'. snd r = Inr cap')"], goal_cases)
  case (1 a f cap)
  show ?case by simp
next
  case (2 a f cap e)
  then show ?case using fetchResults_Inl [of "env a" e] by auto
next
  case (3 a f cap r)
  then show ?case by auto
next
  case (4 a f cap res found cap1)
  show ?case by simp
next
  case (5 a f cap res found cap1 r)
  then show ?case by auto
qed

lemma pollLoop_all_empty:
  "(\<forall>j. a \<le> j \<and> j \<le> M \<longrightarrow>
       fetchResults (env j) = Inr None \<or> fetchResults (env j) = Inr (Some [])) \<longrightarrow>
     pollLoop env cl M a f cap = (f + nat (M + 1 - a), Inr cap)"
proof (rule pollLoop_rule [where P = "\<lambda>a f cap r.
     (\<forall>j. a \<le> j \<and> j \<le> M \<longrightarrow>
       fetchResults (env j) = Inr None \<or> fetchResults (env j) = Inr (Some [])) \<longrightarrow>
     r = (f + nat (M + 1 - a), Inr cap)"], goal_cases)
  case (1 a f cap)
  then show ?case by simp
next
  case (2 a f cap e)
  then show ?case by auto
next
  case (3 a f cap r)
  have "Suc f + nat (M + 1 - (a + 1)) = f + nat (M + 1 - a)" using 3(1) by linarith
  then show ?case using 3 by auto
next
  case (4 a f cap res found cap1)
  then have "res \<noteq> []" by (auto simp: checkIfShouldExit_def)
  then show ?case using 4 by auto
next
  case (5 a f cap res found cap1 r)
  have k: "Suc f + nat (M + 1 - (a + 1)) = f + nat (M + 1 - a)" using 5(1) by linarith
  show ?case
  proof
    assume all: "\<forall>j. a \<le> j \<and> j \<le> M \<longrightarrow>
       fetchResults (env j) = Inr None \<or> fetchResults (env j) = Inr (Some [])"
    then have "res = []" using 5(1,2) by auto
    then have "cap1 = cap" using 5(3) by (simp add: processClientResults_empty)
    moreover have "r = (Suc f + nat (M + 1 - (a + 1)), Inr cap1)" using 5(5) all by auto
    ultimately show "r = (f + nat (M + 1 - a), Inr cap)" using k by simp
  qed
qed

lemma pollLoop_auth_last:
  "\<forall>e. snd (pollLoop env cl M a f cap) = Inl e \<longrightarrow>
     f < fst (pollLoop env cl M a f cap) \<and> e = AuthenticationFailed \<and>
     env (a + int (fst (pollLoop env cl M a f cap) - f) - 1) = Throws (AxiosError (Some 401))"
proof (rule pollLoop_rule [where P = "\<lambda>a f cap r. \<forall>e. snd r = Inl e \<longrightarrow>
     f < fst r \<and> e = AuthenticationFailed \<and>
     env (a + int (fst r - f) - 1) = Throws (AxiosError (Some 401))"], goal_cases)
  case (1 a f cap)
  show ?case by simp
next
  case (2 a f cap e)
  then show ?case using fetchResults_Inl [of "env a" e] by simp
next
  case (3 a f cap r)
  show ?case
  proof (intro allI impI)
    fix e assume e: "snd r = Inl e"
    note ih = 3(3) [rule_format, OF e]
    from ih have h: "Suc f < fst r" "e = AuthenticationFailed"
      "env (a + 1 + int (fst r - Suc f) - 1) = Throws (AxiosError (Some 401))" by blast+
    have eq: "a + 1 + int (fst r - Suc f) - 1 = a + int (fst r - f) - 1" using h(1) by linarith
    from h(3) have "env (a + int (fst r - f) - 1) = Throws (AxiosError (Some 401))"
      unfolding eq .
    then show "f < fst r \<and> e = AuthenticationFailed \<and>
       env (a + int (fst r - f) - 1) = Throws (AxiosError (Some 401))"
      using h(1,2) by simp
  qed
next
  case (4 a f cap res found cap1)
  show ?case by simp
next
  case (5 a f cap res found cap1 r)
  show ?case
  proof (intro allI impI)
    fix e assume e: "snd r = Inl e"
    note ih = 5(5) [rule_format, OF e]
    from ih have h: "Suc f < fst r" "e = AuthenticationFailed"
      "env (a + 1 + int (fst r - Suc f) - 1) = Throws (AxiosError (Some 401))" by blast+
    have eq: "a + 1 + int (fst r - Suc f) - 1 = a + int (fst r - f) - 1" using h(1) by linarith
    from h(3) have "env (a + int (fst r - f) - 1) = Throws (AxiosError (Some 401))"
      unfolding eq .
    then show "f < fst r \<and> e = AuthenticationFailed \<and>
       env (a + int (fst r - f) - 1) = Throws (AxiosError (Some 401))"
      using h(1,2) by simp
  qed
qed


lemma pollLoop_capturedAfter:
  "a = int f + 1 \<and> cap = capturedAfter env cl f \<longrightarrow>
     (\<forall>cap'. snd (pollLoop env cl M a f cap) = Inr cap' \<longrightarrow>
        cap' = capturedAfter env cl (fst (pollLoop env cl M a f cap)))"
proof (rule pollLoop_rule [where P = "\<lambda>a f cap r. a = int f + 1 \<and> cap = capturedAfter env cl f \<longrightarrow>
     (\<forall>cap'. snd r = Inr cap' \<longrightarrow> cap' = capturedAfter env cl (fst r))"], goal_cases)
  case (1 a f cap)
  show ?case by simp
next
  case (2 a f cap e)
  show ?case by simp
next
  case (3 a f cap r)
  show ?case
  proof (intro impI)
    assume h: "a = int f + 1 \<and> cap = capturedAfter env cl f"
    then have "fetchResults (env (int (Suc f))) = Inr None" using 3(2) by (simp add: add.commute)
    then have "cap = capturedAfter env cl (Suc f)" using h by simp
    moreover have "a + 1 = int (Suc f) + 1" using h by simp
    ultimately show "\<forall>cap'. snd r = Inr cap' \<longrightarrow> cap' = capturedAfter env cl (fst r)"
      using 3(3) by blast
  qed
next
  case (4 a f cap res found cap1)
  show ?case
  proof (intro impI)
    assume h: "a = int f + 1 \<and> cap = capturedAfter env cl f"
    then have "fetchResults (env (int (Suc f))) = Inr (Some res)" using 4(2) by (simp add: add.commute)
    then have "cap1 = capturedAfter env cl (Suc f)" using h 4(3) by simp
    then show "\<forall>cap'. snd (Suc f, Inr cap1) = Inr cap' \<longrightarrow>
        cap' = capturedAfter env cl (fst (Suc f, Inr cap1))"
      by simp
  qed
next
  case (5 a f cap res found cap1 r)
  show ?case
  proof (intro impI)
    assume h: "a = int f + 1 \<and> cap = capturedAfter env cl f"
    then have "fetchResults (env (int (Suc f))) = Inr (Some res)" using 5(2) by (simp add: add.commute)
    then have "cap1 = capturedAfter env cl (Suc f)" using h 5(3) by simp
    moreover have "a + 1 = int (Suc f) + 1" using h by simp
    ultimately show "\<forall>cap'. snd r = Inr cap' \<longrightarrow> cap' = capturedAfter env cl (fst r)"
      using 5(5) by blast
  qed
qed

lemma pollLoop_budget_exhausted:
  "a = int f + 1 \<and> cap = capturedAfter env cl f \<and>
   (\<forall>j. a \<le> j \<and> j \<le> M \<longrightarrow> env j \<noteq> Throws (AxiosError (Some 401))) \<and>
   (\<forall>k. f < k \<and> int k \<le> M \<longrightarrow> \<not> firesAt env cl k) \<longrightarrow>
     fst (pollLoop env cl M a f cap) = f + nat (M + 1 - a) \<and>
     (\<exists>cap'. snd (pollLoop env cl M a f cap) = Inr cap')"
proof (rule pollLoop_rule [where P = "\<lambda>a f cap r.
   a = int f + 1 \<and> cap = capturedAfter env cl f \<and>
   (\<forall>j. a \<le> j \<and> j \<le> M \<longrightarrow> env j \<noteq> Throws (AxiosError (Some 401))) \<and>
   (\<forall>k. f < k \<and> int k \<le> M \<longrightarrow> \<not> firesAt env cl k) \<longrightarrow>
     fst r = f + nat (M + 1 - a) \<and> (\<exists>cap'. snd r = Inr cap')"], goal_cases)
  case (1 a f cap)
  then show ?case by simp
next
  case (2 a f cap e)
  then show ?case using fetchResults_Inl [of "env a" e] by auto
next
  case (3 a f cap r)
  show ?case
  proof (intro impI)
    assume h: "a = int f + 1 \<and> cap = capturedAfter env cl f \<and>
      (\<forall>j. a \<le> j \<and> j \<le> M \<longrightarrow> env j \<noteq> Throws (AxiosError (Some 401))) \<and>
      (\<forall>k. f < k \<and> int k \<le> M \<longrightarrow> \<not> firesAt env cl k)"
    then have "fetchResults (env (int (Suc f))) = Inr None" using 3(2) by (simp add: add.commute)
    then have c: "cap = capturedAfter env cl (Suc f)" using h by simp
    have "a + 1 = int (Suc f) + 1 \<and> cap = capturedAfter env cl (Suc f) \<and>
      (\<forall>j. a + 1 \<le> j \<and> j \<le> M \<longrightarrow> env j \<noteq> Throws (AxiosError (Some 401))) \<and>
      (\<forall>k. Suc f < k \<and> int k \<le> M \<longrightarrow> \<not> firesAt env cl k)"
      using h c by auto
    then have "fst r = Suc f + nat (M + 1 - (a + 1)) \<and> (\<exists>cap'. snd r = Inr cap')"
      using 3(3) by blast
    moreover have "Suc f + nat (M + 1 - (a + 1)) = f + nat (M + 1 - a)" using 3(1) by linarith
    ultimately show "fst r = f + nat (M + 1 - a) \<and> (\<exists>cap'. snd r = Inr cap')" by simp
  qed
next
  case (4 a f cap res found cap1)
  show ?case
  proof (intro impI)
    assume h: "a = int f + 1 \<and> cap = capturedAfter env cl f \<and>
      (\<forall>j. a \<le> j \<and> j \<le> M \<longrightarrow> env j \<noteq> Throws (AxiosError (Some 401))) \<and>
      (\<forall>k. f < k \<and> int k \<le> M \<longrightarrow> \<not> firesAt env cl k)"
    then have e: "fetchResults (env (int (Suc f))) = Inr (Some res)" "int (Suc f) = a"
      using 4(2) by (simp_all add: add.commute)
    then have "firesAt env cl (Suc f)" using h 4(3,4) by (simp add: add.commute)
    moreover have "\<not> firesAt env cl (Suc f)" using h 4(1) e(2) by auto
    ultimately show "fst (Suc f, Inr cap1) = f + nat (M + 1 - a) \<and>
        (\<exists>cap'. snd (Suc f, Inr cap1) = Inr cap')" by simp
  qed
next
  case (5 a f cap res found cap1 r)
  show ?case
  proof (intro impI)
    assume h: "a = int f + 1 \<and> cap = capturedAfter env cl f \<and>
      (\<forall>j. a \<le> j \<and> j \<le> M \<longrightarrow> env j \<noteq> Throws (AxiosError (Some 401))) \<and>
      (\<forall>k. f < k \<and> int k \<le> M \<longrightarrow> \<not> firesAt env cl k)"
    then have "fetchResults (env (int (Suc f))) = Inr (Some res)" using 5(2) by (simp add: add.commute)
    then have c: "cap1 = capturedAfter env cl (Suc f)" using h 5(3) by simp
    have "a + 1 = int (Suc f) + 1 \<and> cap1 = capturedAfter env cl (Suc f) \<and>
      (\<forall>j. a + 1 \<le> j \<and> j \<le> M \<longrightarrow> env j \<noteq> Throws (AxiosError (Some 401))) \<and>
      (\<forall>k. Suc f < k \<and> int k \<le> M \<longrightarrow> \<not> firesAt env cl k)"
      using h c by auto
    then have "fst r = Suc f + nat (M + 1 - (a + 1)) \<and> (\<exists>cap'. snd r = Inr cap')"
      using 5(5) by blast
    moreover have "Suc f + nat (M + 1 - (a + 1)) = f + nat (M + 1 - a)" using 5(1) by linarith
    ultimately show "fst r = f + nat (M + 1 - a) \<and> (\<exists>cap'. snd r = Inr cap')" by simp
  qed
qed

lemma getPreviewUrls_returns_captured:
  assumes "getPreviewUrls env test_id cl M = (n, Inr m)"
  shows "m = buildFinalResults cl (capturedAfter env cl n)"
proof -
  from assms obtain cap where
    loop: "pollLoop env cl M 1 0 [] = (n, Inr cap)" and m: "m = buildFinalResults cl cap"
    by (auto simp: getPreviewUrls_def split: if_splits prod.splits sum.splits)
  have "cap = capturedAfter env cl n"
    using pollLoop_capturedAfter [of 1 0 "[]" env cl M] loop by simp
  then show ?thesis using m by simp
qed

lemma getPreviewUrls_budget_exhausted:
  assumes "truthy test_id"
    and "\<forall>j. 1 \<le> j \<and> j \<le> M \<longrightarrow> env j \<noteq> Throws (AxiosError (Some 401))"
    and "\<forall>k. 1 \<le> k \<and> int k \<le> M \<longrightarrow> \<not> firesAt env cl k"
  shows "getPreviewUrls env test_id cl M =
           (nat M, Inr (buildFinalResults cl (capturedAfter env cl (nat M))))"
proof -
  have "fst (pollLoop env cl M 1 0 []) = 0 + nat (M + 1 - 1) \<and>
        (\<exists>cap'. snd (pollLoop env cl M 1 0 []) = Inr cap')"
    using pollLoop_budget_exhausted [of 1 0 "[]" env cl M] assms(2,3) by simp
  then obtain cap where loop: "pollLoop env cl M 1 0 [] = (nat M, Inr cap)"
    by (cases "pollLoop env cl M 1 0 []") auto
  then have g: "getPreviewUrls env test_id cl M = (nat M, Inr (buildFinalResults cl cap))"
    using assms(1) by (simp add: getPreviewUrls_def)
  then show ?thesis using getPreviewUrls_returns_captured [OF g] by simp
qed

text \<open>
  C3. The loop of \<open>getPreviewUrls\<close> is a total function and performs at most \<open>maxAttempts\<close>
  status fetches, whatever the service answers. Unless a fetch is rejected with HTTP 401,
  \<open>getPreviewUrls\<close> returns a result object and no error. Whenever it returns, after an
  exit decision or with the budget used up, the object is \<open>buildFinalResults\<close> of what the
  processed attempts captured. When the exit decision never stops the loop, exactly
  \<open>maxAttempts\<close> fetches are made and what was captured in them is returned; when every
  fetch gives a soft failure or an empty snapshot, that is the empty object.
\<close>

theorem polling_bounded:
  "fst (getPreviewUrls env test_id requested maxAttempts) \<le> nat maxAttempts \<and>
   (truthy test_id \<and>
    (\<forall>j. 1 \<le> j \<and> j \<le> maxAttempts \<longrightarrow> env j \<noteq> Throws (AxiosError (Some 401)))
      \<longrightarrow> (\<exists>previewUrls. snd (getPreviewUrls env test_id requested maxAttempts) = Inr previewUrls)) \<and>
   (truthy test_id \<and>
    (\<forall>j. 1 \<le> j \<and> j \<le> maxAttempts \<longrightarrow>
        fetchResults (env j) = Inr None \<or> fetchResults (env j) = Inr (Some []))
      \<longrightarrow> getPreviewUrls env test_id requested maxAttempts = (nat maxAttempts, Inr [])) \<and>
   (getPreviewUrls env test_id requested maxAttempts = (n, Inr previewUrls)
      \<longrightarrow> previewUrls = buildFinalResults requested (capturedAfter env requested n)) \<and>
   (truthy test_id \<and>
    (\<forall>j. 1 \<le> j \<and> j \<le> maxAttempts \<longrightarrow> env j \<noteq> Throws (AxiosError (Some 401))) \<and>
    (\<forall>k. 1 \<le> k \<and> int k \<le> maxAttempts \<longrightarrow> \<not> firesAt env requested k)
      \<longrightarrow> getPreviewUrls env test_id requested maxAttempts =
            (nat maxAttempts,
             Inr (buildFinalResults requested (capturedAfter env requested (nat maxAttempts)))))"
proof (intro conjI impI)
  show "fst (getPreviewUrls env test_id requested maxAttempts) \<le> nat maxAttempts"
    by (rule getPreviewUrls_fetches_bound)
next
  assume h: "truthy test_id \<and>
    (\<forall>j. 1 \<le> j \<and> j \<le> maxAttempts \<longrightarrow> env j \<noteq> Throws (AxiosError (Some 401)))"
  then obtain cap where "snd (pollLoop env requested maxAttempts 1 0 []) = Inr cap"
    using pollLoop_no_auth_failure [of 1 maxAttempts env requested 0 "[]"] by blast
  then show "\<exists>previewUrls. snd (getPreviewUrls env test_id requested maxAttempts) = Inr previewUrls"
    using h by (cases "pollLoop env requested maxAttempts 1 0 []") (simp add: getPreviewUrls_def)
next
  assume h: "truthy test_id \<and>
    (\<forall>j. 1 \<le> j \<and> j \<le> maxAttempts \<longrightarrow>
        fetchResults (env j) = Inr None \<or> fetchResults (env j) = Inr (Some []))"
  then have "pollLoop env requested maxAttempts 1 0 [] = (0 + nat (maxAttempts + 1 - 1), Inr [])"
    using pollLoop_all_empty [of 1 maxAttempts env requested 0 "[]"] by blast
  then show "getPreviewUrls env test_id requested maxAttempts = (nat maxAttempts, Inr [])"
    using h by (simp add: getPreviewUrls_def buildFinalResults_def)
next
  assume "getPreviewUrls env test_id requested maxAttempts = (n, Inr previewUrls)"
  then show "previewUrls = buildFinalResults requested (capturedAfter env requested n)"
    by (rule getPreviewUrls_returns_captured)
next
  assume "truthy test_id \<and>
    (\<forall>j. 1 \<le> j \<and> j \<le> maxAttempts \<longrightarrow> env j \<noteq> Throws (AxiosError (Some 401))) \<and>
    (\<forall>k. 1 \<le> k \<and> int k \<le> maxAttempts \<longrightarrow> \<not> firesAt env requested k)"
  then show "getPreviewUrls env test_id requested maxAttempts =
            (nat maxAttempts,
             Inr (buildFinalResults requested (capturedAfter env requested (nat maxAttempts))))"
    by (intro getPreviewUrls_budget_exhausted) simp_all
qed

theorem polling_bounded_witness:
  "getPreviewUrls (\<lambda>attempt. if attempt mod 2 = 0 then Response None else Throws (AxiosError (Some 503)))
     (Some ''t1'') [''gmail''] 60 = (60, Inr []) \<and>
   getPreviewUrls
     (\<lambda>attempt. Response (Some
        [(''gmail'', \<lparr>status = ''Complete'', screenshot = Str ''https://x/1.png''\<rparr>),
         (''outlook'', \<lparr>status = ''Processing'', screenshot = Undefined\<rparr>)]))
     (Some ''t1'') [''gmail'', ''outlook''] 60 = (60, Inr [(''gmail'', ''https://x/1.png'')])"
proof -
  let ?soft = "\<lambda>attempt::int. if attempt mod 2 = 0 then Response None else Throws (AxiosError (Some 503))"
  have "truthy (Some ''t1'') \<and>
    (\<forall>j. 1 \<le> j \<and> j \<le> 60 \<longrightarrow>
        fetchResults (?soft j) = Inr None \<or> fetchResults (?soft j) = Inr (Some []))"
    by simp
  then have one: "getPreviewUrls ?soft (Some ''t1'') [''gmail''] 60 = (60, Inr [])"
    using polling_bounded [of ?soft "Some ''t1''" "[''gmail'']" 60] by simp
  let ?res = "[(''gmail'', \<lparr>status = ''Complete'', screenshot = Str ''https://x/1.png''\<rparr>),
               (''outlook'', \<lparr>status = ''Processing'', screenshot = Undefined\<rparr>)]"
  let ?env = "\<lambda>attempt::int. Response (Some ?res)"
  let ?cl = "[''gmail'', ''outlook'']"
  let ?cap = "[(''gmail'', ''https://x/1.png'')]"
  have p0: "snd (processClientResults ?res ?cl []) = ?cap" by (simp add: eval_defs)
  have p1: "snd (processClientResults ?res ?cl ?cap) = ?cap" by (simp add: eval_defs)
  have ca: "capturedAfter ?env ?cl (Suc k) = ?cap" for k
    by (induction k) (simp_all add: p0 p1)
  have go: "\<not> checkIfShouldExit ?cl ?res cap found a" for cap found a
    by (simp add: checkIfShouldExit_def allFinished_def finishedClients_def appearedClients_def
        clientsToCheck_def status_of_def is_terminal_def)
  have nf: "\<not> firesAt ?env ?cl k" for k
    by (cases k) (simp_all add: go split: prod.splits)
  have "nat 60 = Suc 59" by simp
  then have last: "buildFinalResults ?cl (capturedAfter ?env ?cl (nat 60)) = ?cap"
    by (simp only: ca) (simp add: buildFinalResults_def)
  have "truthy (Some ''t1'') \<and>
    (\<forall>j. 1 \<le> j \<and> j \<le> 60 \<longrightarrow> ?env j \<noteq> Throws (AxiosError (Some 401))) \<and>
    (\<forall>k. 1 \<le> k \<and> int k \<le> 60 \<longrightarrow> \<not> firesAt ?env ?cl k)"
    using nf by simp
  then have "getPreviewUrls ?env (Some ''t1'') ?cl 60 =
      (nat 60, Inr (buildFinalResults ?cl (capturedAfter ?env ?cl (nat 60))))"
    using polling_bounded [of ?env "Some ''t1''" ?cl 60] by blast
  then have two: "getPreviewUrls ?env (Some ''t1'') ?cl 60 = (60, Inr ?cap)"
    unfolding last by simp
  show ?thesis using one two by blast
qed

text \<open>
  C5. A fetch that throws anything other than an axios error with HTTP status 401 is a soft
  failure: \<open>fetchResults\<close> returns null and the loop goes on with the next attempt and the
  same captured-URL object. A fetch rejected with HTTP 401 makes the loop throw at once;
  when \<open>getPreviewUrls\<close> ends with that error, its last fetch is the rejected one.
\<close>

theorem poll_error_handling:
  "(attempt \<le> maxAttempts \<and> env attempt = Throws e \<and> e \<noteq> AxiosError (Some 401) \<longrightarrow>
      fetchResults (env attempt) = Inr None \<and>
      pollLoop env requested maxAttempts attempt fetches capturedUrls =
        pollLoop env requested maxAttempts (attempt + 1) (Suc fetches) capturedUrls) \<and>
   (attempt \<le> maxAttempts \<and> env attempt = Throws (AxiosError (Some 401)) \<longrightarrow>
      pollLoop env requested maxAttempts attempt fetches capturedUrls =
        (Suc fetches, Inl AuthenticationFailed)) \<and>
   (getPreviewUrls env test_id requested maxAttempts = (n, Inl AuthenticationFailed) \<longrightarrow>
      1 \<le> n \<and> int n \<le> maxAttempts \<and> env (int n) = Throws (AxiosError (Some 401)))"
proof (intro conjI impI)
  assume h: "attempt \<le> maxAttempts \<and> env attempt = Throws e \<and> e \<noteq> AxiosError (Some 401)"
  then show f: "fetchResults (env attempt) = Inr None"
    by (cases e) auto
  show "pollLoop env requested maxAttempts attempt fetches capturedUrls =
        pollLoop env requested maxAttempts (attempt + 1) (Suc fetches) capturedUrls"
    using h f by (simp add: pollLoop_skip)
next
  assume "attempt \<le> maxAttempts \<and> env attempt = Throws (AxiosError (Some 401))"
  then show "pollLoop env requested maxAttempts attempt fetches capturedUrls =
        (Suc fetches, Inl AuthenticationFailed)"
    by (simp add: pollLoop_error)
next
  assume r: "getPreviewUrls env test_id requested maxAttempts = (n, Inl AuthenticationFailed)"
  then have loop: "pollLoop env requested maxAttempts 1 0 [] = (n, Inl AuthenticationFailed)"
    by (auto simp: getPreviewUrls_def split: if_splits prod.splits sum.splits)
  then have h: "0 < n" "env (1 + int (n - 0) - 1) = Throws (AxiosError (Some 401))"
    using pollLoop_auth_last [of env requested maxAttempts 1 0 "[]"] by simp_all
  show "1 \<le> n" using h(1) by simp
  show "int n \<le> maxAttempts"
    using getPreviewUrls_fetches_bound [of env test_id requested maxAttempts] r h(1) by simp
  show "env (int n) = Throws (AxiosError (Some 401))" using h(2) by simp
qed

theorem poll_error_handling_witness:
  "pollLoop (\<lambda>attempt. if attempt = 1 then Throws (AxiosError (Some 500))
                        else Throws (AxiosError (Some 401))) [''gmail''] 60 1 0 []
     = (2, Inl AuthenticationFailed)"
proof -
  let ?env = "\<lambda>attempt::int. if attempt = 1 then Throws (AxiosError (Some 500))
                        else Throws (AxiosError (Some 401))"
  have "pollLoop ?env [''gmail''] 60 1 0 [] = pollLoop ?env [''gmail''] 60 (1 + 1) (Suc 0) []"
    using poll_error_handling [of 1 60 ?env "AxiosError (Some 500)" "[''gmail'']" 0 "[]"]
    by simp
  moreover have "pollLoop ?env [''gmail''] 60 (1 + 1) (Suc 0) [] = (Suc (Suc 0), Inl AuthenticationFailed)"
    using poll_error_handling [of "1 + 1" 60 ?env _ "[''gmail'']" "Suc 0" "[]"]
    by simp
  ultimately show ?thesis by simp
qed






section \<open>Recorded outcomes\<close>




section \<open>Sanitizer\<close>

lemma is_name_char_iff: "is_name_char c \<longleftrightarrow> is_kept c \<and> \<not> is_space c"
  by (auto simp: is_name_char_def is_kept_def is_space_def)

lemma toLowerCase_fix:
  "\<forall>c \<in> set s. is_name_char c \<or> c = 95 \<Longrightarrow> toLowerCase s = s"
  by (induction s) (auto simp: toLowerCase_def toLowerCase_unit_def is_name_char_def)

lemma replace_spaces_fix:
  "\<forall>c \<in> set s. \<not> is_space c \<Longrightarrow> replace_spaces sep s = s"
  by (induction s) auto

lemma set_replace_spaces:
  "set (replace_spaces sep s) \<subseteq> set sep \<union> {c \<in> set s. \<not> is_space c}"
proof (induction sep s rule: replace_spaces.induct)
  case (1 sep)
  show ?case by simp
next
  case (2 sep c cs)
  show ?case
  proof (cases "is_space c")
    case True
    have "set (dropWhile is_space cs) \<subseteq> set cs" by (rule set_dropWhileD [THEN subsetI])
    then show ?thesis using True 2(1) by auto
  next
    case False
    then show ?thesis using 2(2) by auto
  qed
qed

lemma sanitize_chars:
  "c \<in> set (sanitizeFilename raw h) \<Longrightarrow> is_name_char c \<or> (\<not> h \<and> c = 95)"
proof -
  assume "c \<in> set (sanitizeFilename raw h)"
  then have "c \<in> set (replace_spaces (if h then js ''-'' else js ''_'')
                 (filter is_kept (toLowerCase raw)))"
    by (auto simp: sanitizeFilename_def Let_def dest: in_set_takeD)
  then have "c \<in> set (if h then js ''-'' else js ''_'') \<or>
             (is_kept c \<and> \<not> is_space c)"
    using set_replace_spaces [of "if h then js ''-'' else js ''_''" "filter is_kept (toLowerCase raw)"]
    by auto
  then show ?thesis
    by (auto simp: is_name_char_iff js_def is_kept_def is_space_def split: if_splits)
qed

lemma sanitize_length: "length (sanitizeFilename raw h) \<le> 100"
  by (simp add: sanitizeFilename_def Let_def)

lemma underscore_dropped: "\<not> is_kept 95" "\<not> is_space 95" "\<not> is_name_char 95"
  by (simp_all add: is_kept_def is_space_def is_name_char_def)

lemma sanitize_again:
  assumes "\<forall>c \<in> set s. is_name_char c \<or> c = 95" "length s \<le> 100"
  shows "sanitizeFilename s h = filter (\<lambda>c. c \<noteq> 95) s"
proof -
  have low: "toLowerCase s = s" using assms(1) by (rule toLowerCase_fix)
  have k: "is_kept c \<longleftrightarrow> c \<noteq> 95" if "c \<in> set s" for c
  proof (cases "c = 95")
    case True
    then show ?thesis by (simp add: underscore_dropped)
  next
    case False
    then have "is_name_char c" using that assms(1) by blast
    then show ?thesis using False by (simp add: is_name_char_iff)
  qed
  have flt: "filter is_kept s = filter (\<lambda>c. c \<noteq> 95) s"
    by (rule filter_cong [OF refl]) (rule k)
  have sp: "\<not> is_space c" if "c \<in> set (filter (\<lambda>c. c \<noteq> 95) s)" for c
  proof -
    from that have "is_name_char c" using assms(1) by auto
    then show ?thesis by (simp add: is_name_char_iff)
  qed
  have rs: "replace_spaces sep (filter (\<lambda>c. c \<noteq> 95) s) = filter (\<lambda>c. c \<noteq> 95) s" for sep
    by (rule replace_spaces_fix) (use sp in blast)
  have len: "length (filter (\<lambda>c. c \<noteq> 95) s) \<le> 100"
    using assms(2) length_filter_le [of "\<lambda>c. c \<noteq> 95" s] by linarith
  have "sanitizeFilename s h =
      take 100 (replace_spaces (if h then js ''-'' else js ''_'') (filter is_kept (toLowerCase s)))"
    by (simp add: sanitizeFilename_def Let_def)
  also have "\<dots> = take 100 (filter (\<lambda>c. c \<noteq> 95) s)"
    unfolding low flt rs ..
  also have "\<dots> = filter (\<lambda>c. c \<noteq> 95) s"
    using len by simp
  finally show ?thesis .
qed

text \<open>
  C7, as stated, fails for the underscore separator: the underscore is not in the class
  that the first \<open>replace\<close> keeps, so a second application deletes the separators.
\<close>

theorem underscore_not_idempotent:
  "sanitizeFilename (sanitizeFilename (js ''a b'') False) False \<noteq> sanitizeFilename (js ''a b'') False"
  by (simp add: sanitizeFilename_def js_def toLowerCase_def toLowerCase_unit_def is_kept_def is_space_def)

text \<open>
  C7, amended. With the hyphen separator \<open>sanitizeFilename\<close> is idempotent; with the
  underscore separator a second application gives the first output without its
  underscores. With either separator the output has at most 100 code units, each of them
  in \<open>[a-z0-9.-]\<close> or, for the underscore separator, an underscore.
\<close>

theorem sanitize_props:
  "sanitizeFilename (sanitizeFilename raw True) True = sanitizeFilename raw True \<and>
   sanitizeFilename (sanitizeFilename raw False) False =
     filter (\<lambda>c. c \<noteq> 95) (sanitizeFilename raw False) \<and>
   (\<forall>c \<in> set (sanitizeFilename raw useHyphens).
      is_name_char c \<or> (\<not> useHyphens \<and> c = 95)) \<and>
   length (sanitizeFilename raw useHyphens) \<le> 100"
proof (intro conjI)
  have "\<forall>c \<in> set (sanitizeFilename raw True). is_name_char c"
    using sanitize_chars [of _ raw True] by auto
  then have no: "filter (\<lambda>c. c \<noteq> 95) (sanitizeFilename raw True) = sanitizeFilename raw True"
    by (auto simp: is_name_char_def filter_id_conv)
  have "sanitizeFilename (sanitizeFilename raw True) True =
        filter (\<lambda>c. c \<noteq> 95) (sanitizeFilename raw True)"
    using sanitize_chars [of _ raw True]
    by (intro sanitize_again) (auto simp: sanitize_length)
  then show "sanitizeFilename (sanitizeFilename raw True) True = sanitizeFilename raw True"
    using no by simp
  show "sanitizeFilename (sanitizeFilename raw False) False =
     filter (\<lambda>c. c \<noteq> 95) (sanitizeFilename raw False)"
    using sanitize_chars [of _ raw False]
    by (intro sanitize_again) (auto simp: sanitize_length)
  show "\<forall>c \<in> set (sanitizeFilename raw useHyphens). is_name_char c \<or> (\<not> useHyphens \<and> c = 95)"
    using sanitize_chars by blast
  show "length (sanitizeFilename raw useHyphens) \<le> 100" by (rule sanitize_length)
qed

theorem sanitize_props_witness:
  "sanitizeFilename (js ''EB 21397 Staging'') True = js ''eb-21397-staging'' \<and>
   sanitizeFilename (js ''eb-21397-staging'') True = js ''eb-21397-staging''"
proof -
  have a: "sanitizeFilename (js ''EB 21397 Staging'') True = js ''eb-21397-staging''"
    by (simp add: sanitizeFilename_def js_def toLowerCase_def toLowerCase_unit_def is_kept_def is_space_def)
  show ?thesis using sanitize_props [of "js ''EB 21397 Staging''" True] a by simp
qed

section \<open>Preview records\<close>

lemma underscore_code: "(of_char c = (95::nat)) \<longleftrightarrow> c = CHR ''_''"
proof -
  have "of_char (CHR ''_'') = (95::nat)" by simp
  then have "(of_char c = (95::nat)) \<longleftrightarrow> (of_char c :: nat) = of_char (CHR ''_'')" by simp
  then show ?thesis by (simp only: of_char_eq_iff)
qed

lemma is_word_iff: "is_word c \<longleftrightarrow> is_alnum c \<or> c = CHR ''_''"
  by (auto simp: is_word_def is_alnum_def Let_def underscore_code)

lemma upper_inside_word:
  "\<forall>c \<in> set cs. c \<noteq> CHR ''_'' \<Longrightarrow>
     upper_at_boundaries True cs =
       takeWhile is_alnum cs @ upper_at_boundaries False (dropWhile is_alnum cs)"
  by (induction cs) (auto simp: is_word_iff)

lemma upper_at_boundaries_capitalize:
  "\<forall>c \<in> set s. c \<noteq> CHR ''_'' \<Longrightarrow> upper_at_boundaries False s = capitalize_words s"
proof (induction s rule: capitalize_words.induct)
  case 1
  show ?case by simp
next
  case (2 c cs)
  have c: "is_word c = is_alnum c" using 2(3) by (simp add: is_word_iff)
  have cs: "\<forall>c \<in> set cs. c \<noteq> CHR ''_''" using 2(3) by simp
  show ?case
  proof (cases "is_alnum c")
    case True
    have "\<forall>c \<in> set (dropWhile is_alnum cs). c \<noteq> CHR ''_''"
      using cs by (meson set_dropWhileD)
    then have "upper_at_boundaries False (dropWhile is_alnum cs)
        = capitalize_words (dropWhile is_alnum cs)"
      using 2(1) True by simp
    then show ?thesis using True c upper_inside_word [OF cs] by simp
  next
    case False
    then show ?thesis using c cs 2(2) by simp
  qed
qed

lemma preview_name_eq: "preview_name cl = preview_name_spec cl"
proof -
  have "\<forall>c \<in> set (replace_underscores cl). c \<noteq> CHR ''_''"
    by (auto simp: replace_underscores_def)
  then show ?thesis
    by (simp add: preview_name_def preview_name_spec_def upper_at_boundaries_capitalize
        replace_underscores_def [symmetric])
qed

text \<open>
  C9. For every entry \<open>(client, url)\<close> of the object returned by the poller, in order, the
  preview record has the client identifier with each underscore replaced by a space and
  the first character of each word in upper case, followed by \<open>'' Preview''\<close>, as its name,
  the URL as it was captured, and the raw client identifier.
\<close>

theorem preview_records:
  "materialize previewUrlsMap =
     map (\<lambda>(c, u). \<lparr>name = preview_name_spec c, url = u, client = c\<rparr>) previewUrlsMap"
  by (simp add: materialize_def preview_name_eq)

theorem preview_records_witness:
  "materialize [(''outlook_2021'', ''https://x/1.png'')] =
     [\<lparr>name = ''Outlook 2021 Preview'', url = ''https://x/1.png'', client = ''outlook_2021''\<rparr>]"
proof -
  have "preview_name_spec ''outlook_2021'' = ''Outlook 2021 Preview''"
    by code_simp
  then show ?thesis using preview_records [of "[(''outlook_2021'', ''https://x/1.png'')]"] by simp
qed

section \<open>Missing test identifier\<close>

text \<open>
  C10. When the injection response has no \<open>test_id\<close>, or an empty one, \<open>getPreviewUrls\<close>
  throws the error "Missing test ID" whatever the service would answer, and it does so
  before any status fetch: the number of fetches is 0 and no captured-URL object is
  returned.
\<close>

theorem missing_test_id_throws_before_polling:
  "test_id = None \<or> test_id = Some [] \<Longrightarrow>
     getPreviewUrls env test_id emailClients maxAttempts = (0, Inl MissingTestId)"
  by (auto simp: getPreviewUrls_def)

theorem missing_test_id_throws_before_polling_witness:
  "getPreviewUrls (\<lambda>_. Response (Some [(''gmail'', \<lparr>status = ''Complete'', screenshot = Str ''u''\<rparr>)]))
     (Some []) [''gmail''] 60 = (0, Inl MissingTestId)"
  using missing_test_id_throws_before_polling
    [of "Some []" "\<lambda>_. Response (Some [(''gmail'', \<lparr>status = ''Complete'', screenshot = Str ''u''\<rparr>)])"
        "[''gmail'']" 60]
  by simp

end
